theory Spec2Isabelle
  imports Main "HOL-Library.Word"
begin

section \<open>MiniBf (src/bf/bf.c): data model\<close>

text \<open>
  The globals of bf.c. A tape cell, the cell pointer \<open>cell\<close> and \<open>max_cell_used\<close> are
  \<open>short int\<close>: 16-bit words read as signed (\<open>sint\<close>). Storing an \<open>int\<close> result back
  into a \<open>short\<close> reduces it modulo \<open>2 ^ 16\<close> (the conversion is implementation-defined
  in C; every mainstream compiler wraps), which is what \<open>+\<close> on a word does.
  \<open>debug_counter\<close> and \<open>memory_counter\<close> are \<open>int\<close>: incrementing \<open>INT_MAX\<close> is
  undefined behaviour and is a fault of the model. The arrays \<open>tape\<close> and \<open>loops\<close> are
  functions from the index; an index below 0 (the only way a \<open>short\<close> can leave
  \<open>tape[TAPESIZE]\<close>) is a fault. The standard streams are byte lists: \<open>stdin\<close> holds
  what is still to be read (empty: \<open>getchar\<close> returns \<open>EOF\<close>), \<open>stdout\<close> what has been
  written. What \<open>InitLoops\<close> prints on \<open>stderr\<close> is kept as the list of its reports.
\<close>

type_synonym byte = "8 word"
type_synonym short = "16 word"

definition TAPESIZE :: nat where
  "TAPESIZE = 16777216"

definition INT_MAX :: int where
  "INT_MAX = 2147483647"

datatype bracket_error = MissingOpen nat | MissingClose nat

datatype fault = TapeOutOfBounds | IntOverflow

record machine =
  loops :: "nat \<Rightarrow> nat"
  source_ptr :: nat
  tape :: "nat \<Rightarrow> short"
  cell :: short
  max_cell_used :: short
  debug_counter :: int
  memory_counter :: int
  stdin :: "byte list"
  stdout :: "byte list"
  stderr :: "bracket_error list"

definition fresh :: "byte list \<Rightarrow> machine" where
  "fresh inp = \<lparr> loops = (\<lambda>_. 0), source_ptr = 0, tape = (\<lambda>_. 0), cell = 0,
     max_cell_used = 0, debug_counter = 1, memory_counter = 1,
     stdin = inp, stdout = [], stderr = [] \<rparr>"

section \<open>The Jump Resolver: \<open>InitLoops\<close>\<close>

text \<open>
  One iteration of the \<open>for\<close> loop of \<open>InitLoops\<close> at \<open>source_ptr = i\<close>. The array
  \<open>stack\<close> with \<open>stack_ptr\<close> is a list, top first. The two \<open>if\<close>s follow the source:
  first the push on an open bracket, then the close bracket, which reports an unmatched
  close when the stack is empty and otherwise pops and writes both entries of \<open>loops\<close>.
\<close>

definition scan_step ::
  "string \<Rightarrow> nat \<Rightarrow> nat list \<times> (nat \<Rightarrow> nat) \<times> bracket_error list
     \<Rightarrow> nat list \<times> (nat \<Rightarrow> nat) \<times> bracket_error list" where
  "scan_step source i st =
     (case st of (stk, lp, errs) \<Rightarrow>
        let stk1 = (if source ! i = CHR ''['' then i # stk else stk) in
        if source ! i = CHR '']'' then
          (case stk1 of
             [] \<Rightarrow> (stk1, lp, errs @ [MissingOpen i])
           | t # rest \<Rightarrow> (rest, lp(i := t, t := i), errs))
        else (stk1, lp, errs))"

definition scan :: "string \<Rightarrow> (nat \<Rightarrow> nat) \<Rightarrow> nat list \<times> (nat \<Rightarrow> nat) \<times> bracket_error list" where
  "scan source lp0 = fold (scan_step source) [0..<length source] ([], lp0, [])"

text \<open>
  After the loop a single \<open>if (stack_ptr > 0)\<close> reports the top of the stack. The result
  is the new content of \<open>loops\<close> and the reports in the order they are printed.
\<close>

definition InitLoops :: "string \<Rightarrow> (nat \<Rightarrow> nat) \<Rightarrow> (nat \<Rightarrow> nat) \<times> bracket_error list" where
  "InitLoops source lp0 =
     (case scan source lp0 of (stk, lp, errs) \<Rightarrow>
        (lp, (case stk of [] \<Rightarrow> errs | t # rest \<Rightarrow> errs @ [MissingClose t])))"

section \<open>The Tape Machine: \<open>ExecuteSource\<close>\<close>

text \<open>\<open>printf("%d", i)\<close>: the decimal digits of \<open>i\<close>, with a minus sign below 0.\<close>

function dec_digits :: "nat \<Rightarrow> string" where
  "dec_digits n =
     (if n < 10 then [char_of (48 + n)] else dec_digits (n div 10) @ [char_of (48 + n mod 10)])"
  by pat_completeness auto
termination
  by (relation "measure id") auto

definition printf_d :: "int \<Rightarrow> string" where
  "printf_d i = (if i < 0 then CHR ''-'' # dec_digits (nat (- i)) else dec_digits (nat i))"

definition bytes :: "string \<Rightarrow> byte list" where
  "bytes s = map of_char s"

definition COLOR_RESET :: string where
  "COLOR_RESET = CHR 0x1B # ''[0m''"

definition COLOR_GREEN :: string where
  "COLOR_GREEN = CHR 0x1B # ''[32m''"

definition COLOR_YELLOW :: string where
  "COLOR_YELLOW = CHR 0x1B # ''[33m''"

text \<open>The body of the \<open>for\<close> loop of the \<open>@\<close> dump, for cell \<open>i\<close>.\<close>

definition dump_cell :: "(nat \<Rightarrow> short) \<Rightarrow> nat \<Rightarrow> string" where
  "dump_cell tp i =
     ''#'' @ printf_d (int i) @ '': '' @ printf_d (sint (tp i)) @ ''  ''
       @ (if i mod 5 = 4 then ''\<newline>'' else [])"

text \<open>
  The \<open>switch\<close> of \<open>ExecuteSource\<close> on \<open>source[source_ptr]\<close>: one instruction, before the
  loop's \<open>source_ptr++\<close>. A character outside the ten cases changes nothing.
\<close>

definition exec_instr :: "string \<Rightarrow> machine \<Rightarrow> fault + machine" where
  "exec_instr source m =
     (let c = source ! source_ptr m;
          oob = (sint (cell m) < 0);
          i = nat (sint (cell m))
      in
      if c = CHR ''+'' then
        (if oob then Inl TapeOutOfBounds
         else Inr (m\<lparr>tape := (tape m)(i := tape m i + 1)\<rparr>))
      else if c = CHR ''-'' then
        (if oob then Inl TapeOutOfBounds
         else if 0 < sint (tape m i) then Inr (m\<lparr>tape := (tape m)(i := tape m i - 1)\<rparr>)
         else Inr m)
      else if c = CHR ''<'' then Inr (m\<lparr>cell := cell m - 1\<rparr>)
      else if c = CHR ''>'' then
        (let m1 = m\<lparr>cell := cell m + 1\<rparr> in
         if sint (max_cell_used m1) < sint (cell m1)
         then Inr (m1\<lparr>max_cell_used := cell m1\<rparr>) else Inr m1)
      else if c = CHR '','' then
        (case stdin m of
           [] \<Rightarrow> Inr m
         | b # rest \<Rightarrow>
             if oob then Inl TapeOutOfBounds
             else
               (let v = (ucast b :: short);
                    v1 = (if v = of_char CHR 0x0A then 10 else v)
                in Inr (m\<lparr>tape := (tape m)(i := v1), stdin := rest\<rparr>)))
      else if c = CHR ''.'' then
        (if oob then Inl TapeOutOfBounds
         else Inr (m\<lparr>stdout := stdout m @ [ucast (tape m i)]\<rparr>))
      else if c = CHR ''['' then
        (if oob then Inl TapeOutOfBounds
         else if tape m i = 0 then Inr (m\<lparr>source_ptr := loops m (source_ptr m)\<rparr>)
         else Inr m)
      else if c = CHR '']'' then
        (if oob then Inl TapeOutOfBounds
         else if tape m i \<noteq> 0 then Inr (m\<lparr>source_ptr := loops m (source_ptr m)\<rparr>)
         else Inr m)
      else if c = CHR ''#'' then
        (if debug_counter m \<ge> INT_MAX then Inl IntOverflow
         else if oob then Inl TapeOutOfBounds
         else Inr (m\<lparr>debug_counter := debug_counter m + 1,
                stdout := stdout m @ bytes
                  (COLOR_YELLOW @ ''\<newline>\<newline># DEBUG INFO ('' @ printf_d (debug_counter m)
                     @ ''):\<newline>'' @ COLOR_RESET
                   @ ''cell #'' @ printf_d (sint (cell m)) @ '': ''
                     @ printf_d (sint (tape m i)) @ ''\<newline>'')\<rparr>))
      else if c = CHR ''@'' then
        (if memory_counter m \<ge> INT_MAX then Inl IntOverflow
         else Inr (m\<lparr>memory_counter := memory_counter m + 1,
                stdout := stdout m @ bytes
                  (COLOR_GREEN @ ''\<newline>\<newline>@ DEBUG INFO ('' @ printf_d (memory_counter m)
                     @ ''):\<newline>'' @ COLOR_RESET
                   @ concat (map (dump_cell (tape m)) [0..<nat (sint (max_cell_used m) + 1)])
                   @ ''\<newline>'')\<rparr>))
      else Inr m)"

text \<open>One iteration of the \<open>for\<close> loop: the instruction, then \<open>source_ptr++\<close>.\<close>

definition step :: "string \<Rightarrow> machine \<Rightarrow> fault + machine" where
  "step source m =
     (case exec_instr source m of
        Inl e \<Rightarrow> Inl e
      | Inr m1 \<Rightarrow> Inr (m1\<lparr>source_ptr := source_ptr m1 + 1\<rparr>))"

text \<open>
  The \<open>for\<close> loop, which need not end: it runs for at most \<open>n\<close> iterations, and \<open>None\<close>
  says that \<open>n\<close> were not enough. \<open>Some (Inl e)\<close> is a run that stops in a fault,
  \<open>Some (Inr m)\<close> one that leaves the loop with \<open>source_ptr \<ge> source_length\<close>.
\<close>

fun run :: "nat \<Rightarrow> string \<Rightarrow> machine \<Rightarrow> (fault + machine) option" where
  "run 0 source m = (if source_ptr m < length source then None else Some (Inr m))"
| "run (Suc n) source m =
     (if source_ptr m < length source then
        (case step source m of
           Inl e \<Rightarrow> Some (Inl e)
         | Inr m1 \<Rightarrow> run n source m1)
      else Some (Inr m))"

text \<open>
  The machine after at most \<open>n\<close> iterations of the loop: where \<open>run n\<close> has ended, or
  where it is when \<open>n\<close> were not enough.
\<close>

fun run_upto :: "nat \<Rightarrow> string \<Rightarrow> machine \<Rightarrow> fault + machine" where
  "run_upto 0 source m = Inr m"
| "run_upto (Suc n) source m =
     (if source_ptr m < length source then
        (case step source m of
           Inl e \<Rightarrow> Inl e
         | Inr m1 \<Rightarrow> run_upto n source m1)
      else Inr m)"

text \<open>
  \<open>ExecuteSource\<close>: \<open>InitLoops\<close>, the loop from \<open>source_ptr = 0\<close>, and the closing
  \<open>printf("\n")\<close>. \<open>at_loop_start\<close> is the machine when the loop begins.
\<close>

definition at_loop_start :: "string \<Rightarrow> machine \<Rightarrow> machine" where
  "at_loop_start source m =
     (case InitLoops source (loops m) of (lp, errs) \<Rightarrow>
        m\<lparr>loops := lp, source_ptr := 0, stderr := stderr m @ errs\<rparr>)"

definition ExecuteSource :: "nat \<Rightarrow> string \<Rightarrow> machine \<Rightarrow> (fault + machine) option" where
  "ExecuteSource n source m =
     (case run n source (at_loop_start source m) of
        None \<Rightarrow> None
      | Some (Inl e) \<Rightarrow> Some (Inl e)
      | Some (Inr m1) \<Rightarrow> Some (Inr (m1\<lparr>stdout := stdout m1 @ bytes ''\<newline>''\<rparr>)))"

text \<open>The current cell, \<open>tape[cell]\<close>.\<close>

definition cur :: "machine \<Rightarrow> short" where
  "cur m = tape m (nat (sint (cell m)))"

section \<open>Balanced programs and the nesting depth\<close>

text \<open>
  A Program Buffer is balanced when, reading left to right, no close bracket comes with
  no open bracket pending, and none is pending at the end.
\<close>

fun nesting :: "string \<Rightarrow> nat \<Rightarrow> bool" where
  "nesting [] d = (d = 0)"
| "nesting (c # cs) d =
     (if c = CHR ''['' then nesting cs (Suc d)
      else if c = CHR '']'' then 0 < d \<and> nesting cs (d - 1)
      else nesting cs d)"

definition balanced :: "string \<Rightarrow> bool" where
  "balanced source = nesting source 0"

text \<open>
  The nesting depth in front of position \<open>n\<close>: the open brackets minus the close
  brackets among the first \<open>n\<close> elements. It is stated for any pair of predicates,
  since the emitted program nests its loops the same way.
\<close>

definition nest_level :: "('a \<Rightarrow> bool) \<Rightarrow> ('a \<Rightarrow> bool) \<Rightarrow> 'a list \<Rightarrow> nat \<Rightarrow> int" where
  "nest_level opn cls xs n =
     int (length (filter opn (take n xs))) - int (length (filter cls (take n xs)))"

definition depth :: "string \<Rightarrow> nat \<Rightarrow> int" where
  "depth source n = nest_level (\<lambda>c. c = CHR ''['') (\<lambda>c. c = CHR '']'') source n"

text \<open>
  What the scan of \<open>InitLoops\<close> maintains. \<open>paired\<close>: an open bracket at \<open>p\<close> and a
  close bracket at \<open>q\<close> point at each other in \<open>loops\<close>, and \<open>q\<close> is where the depth
  first returns to its value in front of \<open>p\<close>. \<open>pending\<close>: the stack holds open
  brackets, the one at height \<open>h\<close> in front of depth \<open>h\<close>, and the depth has stayed
  above that since. \<open>scan_inv\<close>: nothing is reported, the stack is as high as the
  depth, and every bracket in front of \<open>i\<close> that is not on the stack is paired.
\<close>

definition paired :: "string \<Rightarrow> (nat \<Rightarrow> nat) \<Rightarrow> nat \<Rightarrow> nat \<Rightarrow> bool" where
  "paired source lp p q \<longleftrightarrow>
     p < q \<and> q < length source \<and> source ! p = CHR ''['' \<and> source ! q = CHR '']''
     \<and> lp p = q \<and> lp q = p \<and> depth source (Suc q) = depth source p
     \<and> (\<forall>k. p < k \<and> k \<le> q \<longrightarrow> depth source p < depth source k)"

fun pending :: "string \<Rightarrow> nat \<Rightarrow> nat list \<Rightarrow> bool" where
  "pending source i [] = True"
| "pending source i (t # rest) =
     (t < i \<and> source ! t = CHR ''['' \<and> depth source t = int (length rest)
      \<and> (\<forall>k. t < k \<and> k \<le> i \<longrightarrow> depth source t < depth source k)
      \<and> pending source i rest)"

definition scan_inv :: "string \<Rightarrow> nat \<Rightarrow> nat list \<times> (nat \<Rightarrow> nat) \<times> bracket_error list \<Rightarrow> bool" where
  "scan_inv source i st =
     (case st of (stk, lp, errs) \<Rightarrow>
        errs = [] \<and> int (length stk) = depth source i \<and> pending source i stk
        \<and> (\<forall>p<i. p \<notin> set stk \<longrightarrow>
              (source ! p = CHR ''['' \<longrightarrow> paired source lp p (lp p) \<and> lp p < i)
            \<and> (source ! p = CHR '']'' \<longrightarrow> paired source lp (lp p) p)))"

definition is_missing_close :: "bracket_error \<Rightarrow> bool" where
  "is_missing_close e = (case e of MissingClose _ \<Rightarrow> True | MissingOpen _ \<Rightarrow> False)"

text \<open>
  What the scan maintains for every Program Buffer: the stack is strictly decreasing
  from its top, it holds positions in front of \<open>i\<close>, and the scan reports unmatched
  close brackets only.
\<close>

definition scan_shape :: "string \<Rightarrow> nat \<Rightarrow> nat list \<times> (nat \<Rightarrow> nat) \<times> bracket_error list \<Rightarrow> bool" where
  "scan_shape source i st =
     (case st of (stk, lp, errs) \<Rightarrow>
        sorted_wrt (\<lambda>a b. b < a) stk \<and> (\<forall>t\<in>set stk. t < i)
        \<and> (\<forall>e\<in>set errs. \<not> is_missing_close e))"

section \<open>The Source Emitter: \<open>bf_to_c\<close>\<close>

text \<open>
  \<open>bf_to_c\<close> reads its input byte by byte and writes one fixed line of C for each of
  eight characters, and nothing for any other. \<open>cstmt\<close> names the eight lines,
  \<open>translate\<close> is the \<open>switch\<close>, \<open>render\<close> the text of each \<open>fprintf\<close>. \<open>bf_to_c\<close> is
  the text of the output file: the fixed head, what the loop writes for each byte, the
  fixed tail. \<open>emitted\<close> is the sequence of statements that the loop has written.
\<close>

datatype cstmt = IncPtr | DecPtr | IncCell | DecCell | PutChar | GetChar | WhileOpen | WhileClose

definition translate :: "char \<Rightarrow> cstmt option" where
  "translate c =
     (if c = CHR ''>'' then Some IncPtr
      else if c = CHR ''<'' then Some DecPtr
      else if c = CHR ''+'' then Some IncCell
      else if c = CHR ''-'' then Some DecCell
      else if c = CHR ''.'' then Some PutChar
      else if c = CHR '','' then Some GetChar
      else if c = CHR ''['' then Some WhileOpen
      else if c = CHR '']'' then Some WhileClose
      else None)"

definition TAB :: char where
  "TAB = CHR 0x09"

fun render :: "cstmt \<Rightarrow> string" where
  "render IncPtr = [TAB, TAB] @ ''++cell;\<newline>''"
| "render DecPtr = [TAB, TAB] @ ''--cell;\<newline>''"
| "render IncCell = [TAB, TAB] @ ''++*cell;\<newline>''"
| "render DecCell = [TAB, TAB] @ ''--*cell;\<newline>''"
| "render PutChar = [TAB, TAB] @ ''putchar(*cell);\<newline>''"
| "render GetChar = [TAB, TAB] @ ''*cell = getchar();\<newline>''"
| "render WhileOpen = [TAB] @ ''while (*cell) {\<newline>''"
| "render WhileClose = [TAB] @ ''}\<newline>''"

definition prologue :: string where
  "prologue =
     ''#include <stdio.h>\<newline>''
     @ ''#include <stdlib.h>\<newline>\<newline>''
     @ ''int main(int argc, char **argv)\<newline>{\<newline>''
     @ [TAB] @ ''unsigned char *cell = calloc('' @ printf_d (int TAPESIZE) @ '', 1);\<newline>''
     @ [TAB] @ ''unsigned char *cells = cell;\<newline>''
     @ [TAB] @ ''if (!cell) {\<newline>''
     @ [TAB, TAB] @ ''fprintf(stderr, '' @ [CHR 0x22] @ ''Error allocating memory.''
         @ [CHR 0x5C] @ ''n'' @ [CHR 0x22] @ '');\<newline>''
     @ [TAB, TAB] @ ''return 1;\<newline>''
     @ [TAB] @ ''}\<newline>\<newline>''"

definition epilogue :: string where
  "epilogue =
     ''\<newline>'' @ [TAB] @ ''free(cells);\<newline>'' @ [TAB] @ ''return 0;\<newline>}\<newline>\<newline>''"

definition bf_to_c :: "string \<Rightarrow> string" where
  "bf_to_c inp =
     prologue
     @ concat (map (\<lambda>c. case translate c of None \<Rightarrow> [] | Some st \<Rightarrow> render st) inp)
     @ epilogue"

definition emitted :: "string \<Rightarrow> cstmt list" where
  "emitted inp = List.map_filter translate inp"

section \<open>Running the emitted program\<close>

text \<open>
  The meaning of the emitted statements in C, for a run in which \<open>calloc\<close> succeeds.
  \<open>cell\<close> points into a zeroed block of \<open>TAPESIZE\<close> bytes (\<open>unsigned char\<close>: arithmetic
  modulo 256); \<open>c_ptr\<close> is its offset from \<open>cells\<close>. Moving the pointer outside the
  block (one past the end is allowed) and reading or writing through it outside the
  block are undefined behaviour: a fault. \<open>*cell = getchar()\<close> stores \<open>EOF\<close>, which is
  -1, as 255.

  \<open>c_pc\<close> is the position in \<open>emitted\<close> of the statement to execute. The braces of the
  \<open>while\<close> loops nest as C blocks do: the brace that closes the block opened at \<open>i\<close> is
  the first one after \<open>i\<close> behind which the nesting level has returned to its value in
  front of \<open>i\<close> (\<open>block_end\<close>), and \<open>block_start\<close> is the converse. \<open>while (*cell) {\<close>
  enters the body when the byte is not 0 and continues after the closing brace
  otherwise; at the closing brace the condition is evaluated again, and the body is
  entered again or left. A text whose braces do not nest is no C program and the
  compiler rejects it: \<open>compiles\<close> is the check, and \<open>c_main\<close> gives the fault
  \<open>Malformed\<close> for such a text without running it.
\<close>

datatype cfault = PointerOutOfBounds | Malformed

record cstate =
  c_pc :: nat
  c_ptr :: int
  c_cells :: "nat \<Rightarrow> byte"
  c_stdin :: "byte list"
  c_stdout :: "byte list"

definition level :: "cstmt list \<Rightarrow> nat \<Rightarrow> int" where
  "level P n = nest_level (\<lambda>s. s = WhileOpen) (\<lambda>s. s = WhileClose) P n"

definition block_end :: "cstmt list \<Rightarrow> nat \<Rightarrow> nat option" where
  "block_end P i = find (\<lambda>j. level P (Suc j) = level P i) [Suc i..<length P]"

definition block_start :: "cstmt list \<Rightarrow> nat \<Rightarrow> nat option" where
  "block_start P j = find (\<lambda>i. level P i = level P (Suc j)) (rev [0..<j])"

definition c_step :: "cstmt list \<Rightarrow> cstate \<Rightarrow> cfault + cstate" where
  "c_step P s =
     (let inside = (0 \<le> c_ptr s \<and> c_ptr s < int TAPESIZE);
          a = nat (c_ptr s);
          s1 = s\<lparr>c_pc := c_pc s + 1\<rparr>
      in
      case P ! c_pc s of
        IncPtr \<Rightarrow>
          if 0 \<le> c_ptr s \<and> c_ptr s < int TAPESIZE then Inr (s1\<lparr>c_ptr := c_ptr s + 1\<rparr>)
          else Inl PointerOutOfBounds
      | DecPtr \<Rightarrow>
          if 0 < c_ptr s \<and> c_ptr s \<le> int TAPESIZE then Inr (s1\<lparr>c_ptr := c_ptr s - 1\<rparr>)
          else Inl PointerOutOfBounds
      | IncCell \<Rightarrow>
          if inside then Inr (s1\<lparr>c_cells := (c_cells s)(a := c_cells s a + 1)\<rparr>)
          else Inl PointerOutOfBounds
      | DecCell \<Rightarrow>
          if inside then Inr (s1\<lparr>c_cells := (c_cells s)(a := c_cells s a - 1)\<rparr>)
          else Inl PointerOutOfBounds
      | PutChar \<Rightarrow>
          if inside then Inr (s1\<lparr>c_stdout := c_stdout s @ [c_cells s a]\<rparr>)
          else Inl PointerOutOfBounds
      | GetChar \<Rightarrow>
          if inside then
            (case c_stdin s of
               [] \<Rightarrow> Inr (s1\<lparr>c_cells := (c_cells s)(a := 255)\<rparr>)
             | b # rest \<Rightarrow> Inr (s1\<lparr>c_cells := (c_cells s)(a := b), c_stdin := rest\<rparr>))
          else Inl PointerOutOfBounds
      | WhileOpen \<Rightarrow>
          if inside then
            (if c_cells s a \<noteq> 0 then Inr s1
             else (case block_end P (c_pc s) of
                     Some j \<Rightarrow> Inr (s\<lparr>c_pc := j + 1\<rparr>)
                   | None \<Rightarrow> Inl Malformed))
          else Inl PointerOutOfBounds
      | WhileClose \<Rightarrow>
          if inside then
            (case block_start P (c_pc s) of
               Some i \<Rightarrow> if c_cells s a \<noteq> 0 then Inr (s\<lparr>c_pc := i + 1\<rparr>) else Inr s1
             | None \<Rightarrow> Inl Malformed)
          else Inl PointerOutOfBounds)"

text \<open>
  The statements in order until the position is past the last one (\<open>free(cells);
  return 0;\<close> follows), for at most \<open>n\<close> statements; \<open>None\<close> says that \<open>n\<close> were not
  enough. \<open>c_run_upto n\<close> is the state after at most \<open>n\<close> statements. \<open>c_main\<close> starts
  a text that compiles with the pointer at the first byte of the zeroed block.
\<close>

fun c_run :: "nat \<Rightarrow> cstmt list \<Rightarrow> cstate \<Rightarrow> (cfault + cstate) option" where
  "c_run 0 P s = (if c_pc s < length P then None else Some (Inr s))"
| "c_run (Suc n) P s =
     (if c_pc s < length P then
        (case c_step P s of
           Inl e \<Rightarrow> Some (Inl e)
         | Inr s1 \<Rightarrow> c_run n P s1)
      else Some (Inr s))"

fun c_run_upto :: "nat \<Rightarrow> cstmt list \<Rightarrow> cstate \<Rightarrow> cfault + cstate" where
  "c_run_upto 0 P s = Inr s"
| "c_run_upto (Suc n) P s =
     (if c_pc s < length P then
        (case c_step P s of
           Inl e \<Rightarrow> Inl e
         | Inr s1 \<Rightarrow> c_run_upto n P s1)
      else Inr s)"

fun c_nesting :: "cstmt list \<Rightarrow> nat \<Rightarrow> bool" where
  "c_nesting [] d = (d = 0)"
| "c_nesting (st # P) d =
     (if st = WhileOpen then c_nesting P (Suc d)
      else if st = WhileClose then 0 < d \<and> c_nesting P (d - 1)
      else c_nesting P d)"

definition compiles :: "cstmt list \<Rightarrow> bool" where
  "compiles P = c_nesting P 0"

definition c_start :: "byte list \<Rightarrow> cstate" where
  "c_start inp = \<lparr> c_pc = 0, c_ptr = 0, c_cells = (\<lambda>_. 0), c_stdin = inp, c_stdout = [] \<rparr>"

definition c_main :: "nat \<Rightarrow> cstmt list \<Rightarrow> byte list \<Rightarrow> (cfault + cstate) option" where
  "c_main n P inp = (if compiles P then c_run n P (c_start inp) else Some (Inl Malformed))"

section \<open>Where the two runs take the same step\<close>

text \<open>
  \<open>agrees\<close> holds of a machine in front of an instruction on which \<open>ExecuteSource\<close>
  and the emitted program do the same: the pointer is inside the tape; \<open>-\<close> finds a cell
  above 0 (the machine leaves any other cell alone, the emitted \<open>--*cell\<close> wraps);
  \<open>,\<close> finds input (the machine leaves the cell alone at end of input, the emitted
  program stores 255); a bracket finds a cell that is 0 or whose low byte is not 0 (the
  machine tests 16 bits, the emitted program 8); \<open><\<close> and \<open>>\<close> keep the pointer between
  0 and 32767 (the range of the machine's \<open>short\<close> that is inside the tape); and the
  instruction is not \<open>#\<close> or \<open>@\<close>, for which nothing is emitted. \<open>agree_run n\<close> holds
  when this is so in front of each of the first \<open>n\<close> instructions of the run.

  \<open>emit_pos source p\<close> is the number of statements emitted for the first \<open>p\<close> bytes of
  the Program Buffer: the position in \<open>emitted\<close> of what is emitted for byte \<open>p\<close>.
  \<open>sim\<close> relates a machine and a state of the emitted program that are at
  corresponding positions with the same pointer, the same streams, and each byte of
  the block equal to the low byte of the cell. \<open>jumps_match\<close>: at every bracket the
  partner in \<open>loops\<close> is a bracket whose statement is the partner that the block
  structure of the emitted program gives.
\<close>

definition agrees :: "string \<Rightarrow> machine \<Rightarrow> bool" where
  "agrees source m =
     (let c = source ! source_ptr m in
        0 \<le> sint (cell m)
      \<and> (c = CHR ''-'' \<longrightarrow> 0 < sint (cur m))
      \<and> (c = CHR '','' \<longrightarrow> stdin m \<noteq> [])
      \<and> (c = CHR ''['' \<or> c = CHR '']'' \<longrightarrow> (cur m = 0 \<longleftrightarrow> (ucast (cur m) :: byte) = 0))
      \<and> (c = CHR ''<'' \<longrightarrow> 0 < sint (cell m))
      \<and> (c = CHR ''>'' \<longrightarrow> sint (cell m) < 32767)
      \<and> c \<noteq> CHR ''#'' \<and> c \<noteq> CHR ''@'')"

fun agree_run :: "nat \<Rightarrow> string \<Rightarrow> machine \<Rightarrow> bool" where
  "agree_run 0 source m = True"
| "agree_run (Suc n) source m =
     (if source_ptr m < length source then
        agrees source m
        \<and> (case step source m of Inl e \<Rightarrow> True | Inr m1 \<Rightarrow> agree_run n source m1)
      else True)"

definition emit_pos :: "string \<Rightarrow> nat \<Rightarrow> nat" where
  "emit_pos source p = length (emitted (take p source))"

definition sim :: "string \<Rightarrow> machine \<Rightarrow> cstate \<Rightarrow> bool" where
  "sim source m s \<longleftrightarrow>
     c_pc s = emit_pos source (source_ptr m) \<and> c_ptr s = sint (cell m)
     \<and> (\<forall>i. c_cells s i = ucast (tape m i))
     \<and> c_stdin s = stdin m \<and> c_stdout s = stdout m"

definition jumps_match :: "string \<Rightarrow> (nat \<Rightarrow> nat) \<Rightarrow> bool" where
  "jumps_match source lp \<longleftrightarrow>
     (\<forall>p<length source.
        (source ! p = CHR ''['' \<longrightarrow>
           lp p < length source \<and> source ! lp p = CHR '']''
           \<and> block_end (emitted source) (emit_pos source p) = Some (emit_pos source (lp p)))
      \<and> (source ! p = CHR '']'' \<longrightarrow>
           lp p < length source \<and> source ! lp p = CHR ''[''
           \<and> block_start (emitted source) (emit_pos source p) = Some (emit_pos source (lp p))))"

section \<open>Evaluating the model\<close>

lemma run_numeral:
  "run (numeral k) source m =
     (if source_ptr m < length source then
        (case step source m of
           Inl e \<Rightarrow> Some (Inl e)
         | Inr m1 \<Rightarrow> run (pred_numeral k) source m1)
      else Some (Inr m))"
  by (simp add: numeral_eq_Suc)

lemmas conc = ExecuteSource_def at_loop_start_def InitLoops_def scan_def scan_step_def fresh_def step_def
  exec_instr_def bytes_def upt_rec run_numeral

text \<open>More iterations never change the result of a run that has ended.\<close>

lemma run_mono: "run n source m = Some r \<Longrightarrow> n \<le> k \<Longrightarrow> run k source m = Some r"
proof (induction n arbitrary: k m)
  case 0
  then show ?case by (cases k) (auto split: if_splits)
next
  case (Suc n)
  then obtain k' where k: "k = Suc k'" "n \<le> k'" by (cases k) auto
  from Suc.prems(1) show ?case unfolding k
    by (auto split: if_splits sum.splits intro: Suc.IH[OF _ k(2)])
qed

lemma ExecuteSource_mono:
  "ExecuteSource n source m = Some r \<Longrightarrow> n \<le> k \<Longrightarrow> ExecuteSource k source m = Some r"
  by (auto simp: ExecuteSource_def split: option.splits sum.splits dest: run_mono)

section \<open>Arithmetic of a \<open>short\<close>\<close>

lemma sint_short_range: "- 32768 \<le> sint (w :: short) \<and> sint w \<le> 32767"
  using sint_ge[of w] sint_lt[of w] by simp

lemma sint_short_succ:
  "sint (w + 1 :: short) = (if sint w = 32767 then - 32768 else sint w + 1)"
proof (cases "sint w = 32767")
  case True
  then have "(of_int (sint w) :: short) = of_int 32767" by simp
  then have "w = 32767" by simp
  then show ?thesis by simp
next
  case False
  then show ?thesis
    using sint_short_range[of w]
    by (simp add: sint_word_ariths signed_take_bit_int_eq_self)
qed

lemma sint_short_pred:
  "0 < sint (w :: short) \<Longrightarrow> sint (w - 1) = sint w - 1"
  using sint_short_range[of w]
  by (simp add: sint_word_ariths signed_take_bit_int_eq_self)

section \<open>Single instructions\<close>

text \<open>
  C3. In front of an instruction of the buffer, with the pointer inside the tape:
  \<open>-\<close> on a cell that holds 0 leaves it at 0;
  the cell is decremented only when it is above 0, so a cell that is not negative never
  becomes negative. \<open>+\<close> adds one in 16-bit arithmetic, and wraps from 32767 to -32768.
\<close>

theorem decrement_saturates_increment_wraps:
  assumes "source_ptr m < length source" and "0 \<le> sint (cell m)"
  shows "(source ! source_ptr m = CHR ''-'' \<longrightarrow>
           (\<exists>m'. step source m = Inr m'
              \<and> cur m' = (if 0 < sint (cur m) then cur m - 1 else cur m)
              \<and> (cur m = 0 \<longrightarrow> cur m' = 0)
              \<and> (0 \<le> sint (cur m) \<longrightarrow> 0 \<le> sint (cur m'))))
       \<and> (source ! source_ptr m = CHR ''+'' \<longrightarrow>
           (\<exists>m'. step source m = Inr m'
              \<and> cur m' = cur m + 1
              \<and> sint (cur m') = (if sint (cur m) = 32767 then - 32768 else sint (cur m) + 1)))"
  using assms
  by (auto simp: step_def exec_instr_def cur_def Let_def sint_short_succ sint_short_pred)

theorem decrement_saturates_increment_wraps_witness:
  "source_ptr (fresh []) < length ''-'' \<and> 0 \<le> sint (cell (fresh []))
   \<and> map_sum id cur (step ''-'' (fresh [])) = Inr 0
   \<and> map_sum id (\<lambda>m. sint (cur m)) (step ''+'' (fresh []\<lparr>tape := (\<lambda>_. 32767)\<rparr>)) = Inr (- 32768)"
  using decrement_saturates_increment_wraps[where m = "fresh []" and source = "''-''"]
    decrement_saturates_increment_wraps[where m = "fresh []\<lparr>tape := (\<lambda>_. 32767)\<rparr>"
      and source = "''+''"]
  by (auto simp: fresh_def cur_def)

text \<open>
  C6. \<open>,\<close> at end of input is a step that changes neither the tape nor the pointer.
  With a byte \<open>b\<close> to read and the pointer inside the tape, the current cell becomes
  \<open>b\<close>; the line feed (\<open>'\n'\<close>, which is 10) is stored as 10.
\<close>

theorem read_input:
  assumes "source_ptr m < length source" and "source ! source_ptr m = CHR '',''"
  shows "(stdin m = [] \<longrightarrow>
           (\<exists>m'. step source m = Inr m' \<and> tape m' = tape m \<and> cell m' = cell m \<and> stdin m' = []))
       \<and> (\<forall>b rest. stdin m = b # rest \<and> 0 \<le> sint (cell m) \<longrightarrow>
           (\<exists>m'. step source m = Inr m' \<and> cur m' = ucast b \<and> (b = 10 \<longrightarrow> cur m' = 10)
              \<and> cell m' = cell m \<and> stdin m' = rest))"
  using assms
  by (auto simp: step_def exec_instr_def cur_def Let_def)

theorem read_input_witness:
  "source_ptr (fresh []) < length '','' \<and> '','' ! source_ptr (fresh []) = CHR '',''
   \<and> map_sum id tape (step '','' (fresh []\<lparr>tape := (\<lambda>_. 7)\<rparr>)) = Inr (\<lambda>_. 7)
   \<and> map_sum id cur (step '','' (fresh [10, 65])) = Inr 10
   \<and> map_sum id stdin (step '','' (fresh [10, 65])) = Inr [65]"
  using read_input[where source = "'',''" and m = "fresh []\<lparr>tape := (\<lambda>_. 7)\<rparr>"]
    read_input[where source = "'',''" and m = "fresh [10, 65]"]
  by (auto simp: fresh_def cur_def)

text \<open>
  C10. A step on \<open>#\<close> or \<open>@\<close> that is defined (the counter is below \<open>INT_MAX\<close> and,
  for \<open>#\<close>, the pointer is inside the tape) leaves the tape, the pointer and
  \<open>max_cell_used\<close> as they were, and \<open>loops\<close> and the input too; it adds exactly one
  to its own counter, and the other counter keeps its value. Beyond that it only
  writes its report and moves the cursor on.
\<close>

theorem debug_frame:
  assumes "source_ptr m < length source"
    and "source ! source_ptr m = CHR ''#'' \<or> source ! source_ptr m = CHR ''@''"
  shows "(\<forall>m'. step source m = Inr m' \<longrightarrow>
            tape m' = tape m \<and> cell m' = cell m \<and> max_cell_used m' = max_cell_used m
          \<and> loops m' = loops m \<and> stdin m' = stdin m \<and> stderr m' = stderr m
          \<and> source_ptr m' = source_ptr m + 1
          \<and> (if source ! source_ptr m = CHR ''#''
             then debug_counter m' = debug_counter m + 1 \<and> memory_counter m' = memory_counter m
             else memory_counter m' = memory_counter m + 1 \<and> debug_counter m' = debug_counter m))
       \<and> ((\<exists>m'. step source m = Inr m') \<longleftrightarrow>
            (if source ! source_ptr m = CHR ''#''
             then debug_counter m < INT_MAX \<and> 0 \<le> sint (cell m)
             else memory_counter m < INT_MAX))"
  using assms(2)
proof
  assume c: "source ! source_ptr m = CHR ''#''"
  show ?thesis
    by (simp add: step_def exec_instr_def Let_def c)
next
  assume c: "source ! source_ptr m = CHR ''@''"
  show ?thesis
    by (simp add: step_def exec_instr_def Let_def c)
qed

theorem debug_frame_witness:
  "source_ptr (fresh []) < length ''#@''
   \<and> (''#@'' ! source_ptr (fresh []) = CHR ''#'' \<or> ''#@'' ! source_ptr (fresh []) = CHR ''@'')
   \<and> map_sum id (\<lambda>m. (debug_counter m, memory_counter m, cell m, max_cell_used m))
         (step ''#@'' (fresh [])) = Inr (2, 1, 0, 0)
   \<and> map_sum id (\<lambda>m. (debug_counter m, memory_counter m, cell m, max_cell_used m))
         (step ''#@'' (fresh []\<lparr>source_ptr := 1\<rparr>)) = Inr (1, 2, 0, 0)"
proof -
  let ?a = "fresh []" and ?b = "fresh []\<lparr>source_ptr := 1\<rparr>"
  have a: "source_ptr ?a < length ''#@''"
    "''#@'' ! source_ptr ?a = CHR ''#'' \<or> ''#@'' ! source_ptr ?a = CHR ''@''"
    and b: "source_ptr ?b < length ''#@''"
    "''#@'' ! source_ptr ?b = CHR ''#'' \<or> ''#@'' ! source_ptr ?b = CHR ''@''"
    by (simp_all add: fresh_def)
  obtain ma mb where s: "step ''#@'' ?a = Inr ma" "step ''#@'' ?b = Inr mb"
    using debug_frame[OF a] debug_frame[OF b] by (auto simp: fresh_def INT_MAX_def)
  have "(debug_counter ma, memory_counter ma, cell ma, max_cell_used ma) = (2, 1, 0, 0)"
    using debug_frame[OF a] s(1) by (simp add: fresh_def)
  moreover have "(debug_counter mb, memory_counter mb, cell mb, max_cell_used mb) = (1, 2, 0, 0)"
    using debug_frame[OF b] s(2) by (simp add: fresh_def)
  ultimately show ?thesis using a s by simp
qed

section \<open>The invariant of the scan\<close>

lemma nest_level_0 [simp]: "nest_level opn cls xs 0 = 0"
  by (simp add: nest_level_def)

lemma nest_level_Suc:
  "n < length xs \<Longrightarrow> nest_level opn cls xs (Suc n) =
     nest_level opn cls xs n + (if opn (xs ! n) then 1 else 0) - (if cls (xs ! n) then 1 else 0)"
  by (simp add: nest_level_def take_Suc_conv_app_nth)

lemma nest_level_Cons:
  "nest_level opn cls (x # xs) (Suc n) =
     nest_level opn cls xs n + (if opn x then 1 else 0) - (if cls x then 1 else 0)"
  by (simp add: nest_level_def)

lemma depth_0 [simp]: "depth source 0 = 0"
  by (simp add: depth_def)

lemma depth_Suc:
  "n < length source \<Longrightarrow> depth source (Suc n) =
     (if source ! n = CHR ''['' then depth source n + 1
      else if source ! n = CHR '']'' then depth source n - 1 else depth source n)"
  by (simp add: depth_def nest_level_Suc)

lemma depth_Cons:
  "depth (c # cs) (Suc n) =
     (if c = CHR ''['' then depth cs n + 1
      else if c = CHR '']'' then depth cs n - 1 else depth cs n)"
  by (simp add: depth_def nest_level_Cons)

lemma nesting_depth:
  "nesting cs d \<Longrightarrow> n \<le> length cs \<Longrightarrow>
     0 \<le> int d + depth cs n \<and> int d + depth cs (length cs) = 0"
proof (induction cs arbitrary: d n)
  case Nil
  then show ?case by simp
next
  case (Cons c cs)
  define d' where "d' = (if c = CHR ''['' then Suc d else if c = CHR '']'' then d - 1 else d)"
  have nest: "nesting cs d'" and pos: "c = CHR '']'' \<longrightarrow> 0 < d"
    using Cons.prems(1) by (auto simp: d'_def split: if_splits)
  have shift: "int d + depth (c # cs) (Suc k) = int d' + depth cs k" for k
    using pos by (auto simp: d'_def depth_Cons)
  have len: "int d + depth (c # cs) (length (c # cs)) = 0"
    using Cons.IH[OF nest, of "length cs"] shift[of "length cs"] by simp
  show ?case
  proof (cases n)
    case 0
    then show ?thesis using len by simp
  next
    case (Suc n')
    then have "n' \<le> length cs" using Cons.prems(2) by simp
    then have "0 \<le> int d + depth (c # cs) (Suc n')"
      using Cons.IH[OF nest, of n'] shift[of n'] by simp
    then show ?thesis using len Suc by simp
  qed
qed

lemma balanced_depth:
  assumes "balanced source"
  shows "depth source (length source) = 0" and "n \<le> length source \<Longrightarrow> 0 \<le> depth source n"
  using nesting_depth[of source 0] assms by (auto simp: balanced_def)

lemma pending_depth_less:
  "pending source i stk \<Longrightarrow> t \<in> set stk \<Longrightarrow> depth source t < int (length stk)"
  by (induction stk) auto

lemma pending_open:
  "pending source i stk \<Longrightarrow> t \<in> set stk \<Longrightarrow>
     t < i \<and> source ! t = CHR ''['' \<and> (\<forall>k. t < k \<and> k \<le> i \<longrightarrow> depth source t < depth source k)"
  by (induction stk) auto

lemma pending_advance:
  "pending source i stk \<Longrightarrow> int (length stk) \<le> depth source (Suc i) \<Longrightarrow> pending source (Suc i) stk"
proof (induction stk)
  case Nil
  then show ?case by simp
next
  case (Cons t rest)
  have "\<forall>k. t < k \<and> k \<le> Suc i \<longrightarrow> depth source t < depth source k"
    using Cons.prems by (auto simp: le_Suc_eq)
  moreover have "pending source (Suc i) rest"
    using Cons by simp
  ultimately show ?case using Cons.prems by simp
qed

lemma paired_upd:
  assumes "paired source lp p q" and "p \<noteq> a" and "p \<noteq> b" and "q \<noteq> a" and "q \<noteq> b"
  shows "paired source (lp(a := x, b := y)) p q"
  using assms by (simp add: paired_def)

lemma paired_not_pending:
  assumes "paired source lp p q" and "q < i" and "pending source i stk"
  shows "p \<notin> set stk"
proof
  assume "p \<in> set stk"
  then have "\<forall>k. p < k \<and> k \<le> i \<longrightarrow> depth source p < depth source k"
    using pending_open[OF assms(3)] by blast
  moreover have "p < Suc q" "Suc q \<le> i" "depth source (Suc q) = depth source p"
    using assms(1,2) by (auto simp: paired_def)
  ultimately show False by fastforce
qed

lemma scan_inv_step:
  assumes i: "i < length source"
    and nonneg: "0 \<le> depth source (Suc i)"
    and inv: "scan_inv source i st"
  shows "scan_inv source (Suc i) (scan_step source i st)"
proof -
  obtain stk lp errs where st: "st = (stk, lp, errs)" by (cases st)
  from inv st have errs: "errs = []" and len: "int (length stk) = depth source i"
    and pend: "pending source i stk"
    and pairs: "\<And>p. p < i \<Longrightarrow> p \<notin> set stk \<Longrightarrow>
          (source ! p = CHR ''['' \<longrightarrow> paired source lp p (lp p) \<and> lp p < i)
        \<and> (source ! p = CHR '']'' \<longrightarrow> paired source lp (lp p) p)"
    by (auto simp: scan_inv_def)
  consider (opn) "source ! i = CHR ''[''" | (cls) "source ! i = CHR '']''"
    | (other) "source ! i \<noteq> CHR ''[''" "source ! i \<noteq> CHR '']''" by blast
  then show ?thesis
  proof cases
    case opn
    have d: "depth source (Suc i) = depth source i + 1"
      using i opn by (simp add: depth_Suc)
    have "pending source (Suc i) stk"
      using pend len d by (intro pending_advance) simp_all
    then have "pending source (Suc i) (i # stk)"
      using opn len d by (auto simp: le_Suc_eq)
    moreover have "(source ! p = CHR ''['' \<longrightarrow> paired source lp p (lp p) \<and> lp p < Suc i)
        \<and> (source ! p = CHR '']'' \<longrightarrow> paired source lp (lp p) p)"
      if "p < Suc i" "p \<notin> set (i # stk)" for p
      using pairs[of p] that by auto
    ultimately show ?thesis
      using opn errs len d by (simp add: st scan_step_def scan_inv_def)
  next
    case other
    have d: "depth source (Suc i) = depth source i"
      using i other by (simp add: depth_Suc)
    have "pending source (Suc i) stk"
      using pend len d by (intro pending_advance) simp_all
    moreover have "(source ! p = CHR ''['' \<longrightarrow> paired source lp p (lp p) \<and> lp p < Suc i)
        \<and> (source ! p = CHR '']'' \<longrightarrow> paired source lp (lp p) p)"
      if "p < Suc i" "p \<notin> set stk" for p
    proof (cases "p = i")
      case True
      then show ?thesis using other by simp
    next
      case False
      then show ?thesis using pairs[of p] that by auto
    qed
    ultimately show ?thesis
      using other errs len d by (simp add: st scan_step_def scan_inv_def)
  next
    case cls
    have d: "depth source (Suc i) = depth source i - 1"
      using i cls by (simp add: depth_Suc)
    with nonneg len obtain t rest where stk: "stk = t # rest"
      by (cases stk) auto
    have t: "t < i" "source ! t = CHR ''[''" "depth source t = int (length rest)"
      "\<forall>k. t < k \<and> k \<le> i \<longrightarrow> depth source t < depth source k"
      and prest: "pending source i rest"
      using pend stk by auto
    have len': "int (length rest) = depth source (Suc i)"
      using len d stk by simp
    have pend': "pending source (Suc i) rest"
      using prest len' by (intro pending_advance) simp_all
    let ?lp = "lp(i := t, t := i)"
    have new: "paired source ?lp t i"
      using t i cls d len stk by (simp add: paired_def)
    have keep: "paired source ?lp p q" if "paired source lp p q" "q < i" for p q
    proof -
      have "p \<notin> set stk" using paired_not_pending[OF that pend] .
      then have "p \<noteq> t" using stk by auto
      moreover have "q \<noteq> t" using that(1) t(2) by (auto simp: paired_def)
      moreover have "p \<noteq> i" "q \<noteq> i" using that by (auto simp: paired_def)
      ultimately show ?thesis using that(1) by (intro paired_upd) auto
    qed
    have "(source ! p = CHR ''['' \<longrightarrow> paired source ?lp p (?lp p) \<and> ?lp p < Suc i)
        \<and> (source ! p = CHR '']'' \<longrightarrow> paired source ?lp (?lp p) p)"
      if pl: "p < Suc i" and pn: "p \<notin> set rest" for p
    proof -
      consider "p = i" | "p = t" | "p < i" "p \<noteq> t" using pl by fastforce
      then show ?thesis
      proof cases
        case 1
        then show ?thesis using new cls t(1) by auto
      next
        case 2
        then show ?thesis using new t by auto
      next
        case 3
        then have nin: "p \<notin> set stk" using pn stk by simp
        have eq: "?lp p = lp p" using 3 by simp
        show ?thesis
        proof (intro conjI impI)
          assume "source ! p = CHR ''[''"
          then have pr: "paired source lp p (lp p)" and lt: "lp p < i"
            using pairs[OF 3(1) nin] by auto
          show "paired source ?lp p (?lp p)" unfolding eq using keep[OF pr lt] .
          show "?lp p < Suc i" unfolding eq using lt by simp
        next
          assume "source ! p = CHR '']''"
          then have pr: "paired source lp (lp p) p"
            using pairs[OF 3(1) nin] by auto
          show "paired source ?lp (?lp p) p" unfolding eq using keep[OF pr 3(1)] .
        qed
      qed
    qed
    then show ?thesis
      using cls errs len' pend' by (simp add: st stk scan_step_def scan_inv_def)
  qed
qed

lemma scan_inv_fold:
  assumes "\<And>k. k \<le> length source \<Longrightarrow> 0 \<le> depth source k" and "n \<le> length source"
  shows "scan_inv source n (fold (scan_step source) [0..<n] ([], lp0, []))"
  using assms(2)
proof (induction n)
  case 0
  then show ?case by (simp add: scan_inv_def)
next
  case (Suc n)
  then have "scan_inv source n (fold (scan_step source) [0..<n] ([], lp0, []))" by simp
  then show ?case
    using scan_inv_step[of n source] assms(1)[of "Suc n"] Suc.prems by simp
qed

lemma balanced_scan:
  assumes "balanced source"
  obtains lp where "scan source lp0 = ([], lp, [])"
    and "\<And>p. p < length source \<Longrightarrow> source ! p = CHR ''['' \<Longrightarrow> paired source lp p (lp p)"
    and "\<And>p. p < length source \<Longrightarrow> source ! p = CHR '']'' \<Longrightarrow> paired source lp (lp p) p"
proof -
  have inv: "scan_inv source (length source) (scan source lp0)"
    unfolding scan_def using balanced_depth(2)[OF assms] by (intro scan_inv_fold) simp_all
  obtain stk lp errs where s: "scan source lp0 = (stk, lp, errs)" by (cases "scan source lp0")
  have "stk = []" "errs = []"
    using inv balanced_depth(1)[OF assms] by (auto simp: s scan_inv_def)
  then show ?thesis using inv that[of lp] by (auto simp: s scan_inv_def)
qed

section \<open>The Jump Resolver\<close>

text \<open>
  C2. For a balanced Program Buffer and whatever \<open>loops\<close> held before, \<open>InitLoops\<close>
  reports nothing, and at every bracket position \<open>i\<close> the new \<open>loops\<close> is an involution:
  \<open>loops[loops[i]] = i\<close>. The partner of an open bracket is a close bracket to its
  right, the partner of a close bracket an open bracket to its left.
\<close>

theorem jump_map_involution:
  assumes "balanced source" and "i < length source"
    and "source ! i = CHR ''['' \<or> source ! i = CHR '']''"
  shows "snd (InitLoops source lp0) = []
       \<and> fst (InitLoops source lp0) (fst (InitLoops source lp0) i) = i
       \<and> fst (InitLoops source lp0) i < length source
       \<and> (source ! i = CHR ''['' \<longrightarrow>
            i < fst (InitLoops source lp0) i \<and> source ! fst (InitLoops source lp0) i = CHR '']'')
       \<and> (source ! i = CHR '']'' \<longrightarrow>
            fst (InitLoops source lp0) i < i \<and> source ! fst (InitLoops source lp0) i = CHR ''['')"
proof -
  obtain lp where s: "scan source lp0 = ([], lp, [])"
    and opn: "\<And>p. p < length source \<Longrightarrow> source ! p = CHR ''['' \<Longrightarrow> paired source lp p (lp p)"
    and cls: "\<And>p. p < length source \<Longrightarrow> source ! p = CHR '']'' \<Longrightarrow> paired source lp (lp p) p"
    using balanced_scan[OF assms(1)] by blast
  have r: "InitLoops source lp0 = (lp, [])"
    by (simp add: InitLoops_def s)
  from assms(3) show ?thesis
  proof
    assume c: "source ! i = CHR ''[''"
    then show ?thesis using opn[OF assms(2) c] by (auto simp: r paired_def)
  next
    assume c: "source ! i = CHR '']''"
    then show ?thesis using cls[OF assms(2) c] by (auto simp: r paired_def)
  qed
qed

theorem jump_map_involution_witness:
  "balanced ''+[>[-]<]'' \<and> (1::nat) < length ''+[>[-]<]''
   \<and> fst (InitLoops ''+[>[-]<]'' (loops (fresh []))) 1 = 7
   \<and> fst (InitLoops ''+[>[-]<]'' (loops (fresh []))) 7 = 1
   \<and> snd (InitLoops ''+[>[-]<]'' (loops (fresh []))) = []"
  using jump_map_involution[of "''+[>[-]<]''" 1 "loops (fresh [])"]
  by (simp add: balanced_def conc)

text \<open>
  C9. For the Program Buffer \<open>[\<close>, \<open>InitLoops\<close> returns with exactly one report, the
  missing close for position 0, and leaves \<open>loops\<close> as it was.
\<close>

theorem single_open_report:
  "InitLoops ''['' lp = (lp, [MissingClose 0])"
  by (simp add: InitLoops_def scan_def scan_step_def)

theorem single_open_report_witness:
  "snd (InitLoops ''['' (loops (fresh []))) = [MissingClose 0]"
  using single_open_report[of "loops (fresh [])"] by simp

text \<open>
  C5, as the spec states it, fails: for \<open>[[\<close> the scan ends with positions 1 and 0 on
  the stack, and the only report is the one for position 1.
\<close>

theorem only_innermost_open_reported_counterexample:
  "fst (scan ''[['' (loops (fresh []))) = [1, 0]
   \<and> snd (InitLoops ''[['' (loops (fresh []))) = [MissingClose 1]"
  by (simp add: conc)

lemma scan_shape_step:
  "scan_shape source i st \<Longrightarrow> scan_shape source (Suc i) (scan_step source i st)"
  by (cases st) (auto simp: scan_shape_def scan_step_def is_missing_close_def Let_def
      less_Suc_eq split: list.splits)

lemma scan_shape_fold:
  "scan_shape source n (fold (scan_step source) [0..<n] ([], lp0, []))"
  by (induction n) (auto simp: scan_shape_def[of _ 0] intro: scan_shape_step)

text \<open>
  C5, amended. When the scan ends with a non-empty stack, \<open>InitLoops\<close> adds exactly one
  report after those of the scan: the missing close for the top of the stack, which is
  the last pushed and the rightmost pending open bracket. It is the only missing-close
  report; the positions below it on the stack are not reported.
\<close>

theorem only_innermost_open_reported:
  assumes "scan source lp0 = (t # rest, lp, errs)"
  shows "snd (InitLoops source lp0) = errs @ [MissingClose t]
       \<and> filter is_missing_close (snd (InitLoops source lp0)) = [MissingClose t]
       \<and> (\<forall>p\<in>set rest. p < t)"
proof -
  have "scan_shape source (length source) (t # rest, lp, errs)"
    using scan_shape_fold[of source "length source" lp0] assms by (simp add: scan_def)
  then have "filter is_missing_close errs = []" and "\<forall>p\<in>set rest. p < t"
    by (auto simp: scan_shape_def)
  then show ?thesis
    by (simp add: InitLoops_def assms is_missing_close_def)
qed

theorem only_innermost_open_reported_witness:
  "scan '']+[[-'' (loops (fresh [])) = ([3, 2], loops (fresh []), [MissingOpen 0])
   \<and> snd (InitLoops '']+[[-'' (loops (fresh []))) = [MissingOpen 0, MissingClose 3]"
  using only_innermost_open_reported[of "'']+[[-''" "loops (fresh [])" 3 "[2]" "loops (fresh [])" "[MissingOpen 0]"]
  by (simp add: conc)

section \<open>The cursor\<close>

text \<open>
  C4, as the spec states it, fails: in \<open>[]\<close> on a zero cell the open bracket at 0 has
  its partner at 1, and the step leaves the cursor at 2, so the close bracket is not
  evaluated.
\<close>

theorem branch_lands_on_partner_counterexample:
  "loops (at_loop_start ''[]'' (fresh [])) 0 = 1
   \<and> map_sum id source_ptr (step ''[]'' (at_loop_start ''[]'' (fresh []))) = Inr 2"
  by (simp add: conc)

text \<open>
  C4, amended. In front of an instruction of the buffer, with the pointer inside the
  tape: an open bracket on a zero cell and a
  close bracket on a non-zero cell set the cursor to \<open>loops[source_ptr]\<close>, and the
  loop's \<open>source_ptr++\<close> then moves it one further: the next instruction evaluated is
  the one after the partner. Every other step that is defined leaves the cursor one
  after where it was.
\<close>

theorem branch_then_advance:
  assumes "source_ptr m < length source" and "0 \<le> sint (cell m)"
  shows "(source ! source_ptr m = CHR ''['' \<and> cur m = 0
            \<or> source ! source_ptr m = CHR '']'' \<and> cur m \<noteq> 0 \<longrightarrow>
           (\<exists>m1 m'. exec_instr source m = Inr m1 \<and> source_ptr m1 = loops m (source_ptr m)
              \<and> step source m = Inr m' \<and> source_ptr m' = loops m (source_ptr m) + 1))
       \<and> (\<not> (source ! source_ptr m = CHR ''['' \<and> cur m = 0
            \<or> source ! source_ptr m = CHR '']'' \<and> cur m \<noteq> 0) \<longrightarrow>
           (\<forall>m'. step source m = Inr m' \<longrightarrow> source_ptr m' = source_ptr m + 1))"
  using assms
  by (auto simp: step_def exec_instr_def cur_def Let_def split: if_splits list.splits)

theorem branch_then_advance_witness:
  "source_ptr (at_loop_start ''[+]'' (fresh [])) < length ''[+]'' \<and> 0 \<le> sint (cell (fresh []))
   \<and> map_sum id source_ptr (step ''[+]'' (at_loop_start ''[+]'' (fresh []))) = Inr 3
   \<and> map_sum id source_ptr
       (step ''[+]'' (at_loop_start ''[+]'' (fresh [])\<lparr>source_ptr := 2, tape := (\<lambda>_. 1)\<rparr>)) = Inr 1
   \<and> map_sum id source_ptr
       (step ''[+]'' (at_loop_start ''[+]'' (fresh [])\<lparr>source_ptr := 1\<rparr>)) = Inr 2"
  using branch_then_advance[where m = "at_loop_start ''[+]'' (fresh [])" and source = "''[+]''"]
    branch_then_advance[where m = "at_loop_start ''[+]'' (fresh [])\<lparr>source_ptr := 2, tape := (\<lambda>_. 1)\<rparr>"
      and source = "''[+]''"]
    branch_then_advance[where m = "at_loop_start ''[+]'' (fresh [])\<lparr>source_ptr := 1\<rparr>"
      and source = "''[+]''"]
  by (simp add: conc)

section \<open>Whole runs\<close>

text \<open>
  C7. On a tape whose pointer is 0 and whose cell 0 holds 0 (a fresh tape in particular),
  \<open>+[-]\<close> runs as follows: \<open>+\<close> makes the current cell 1; \<open>[\<close> finds it non-zero and
  goes on into the loop; \<open>-\<close> brings it to 0; \<open>]\<close> finds it zero and leaves the loop.
  Three iterations do not end the run, four do, and any larger bound gives the same
  result: the cursor is past the buffer, and the current cell holds 0.
\<close>

theorem plus_loop_minus_halts:
  assumes "cell m0 = 0" and "tape m0 0 = 0" and "4 \<le> n"
  shows "\<exists>m1 m2 m3 m4 m.
           step ''+[-]'' (at_loop_start ''+[-]'' m0) = Inr m1 \<and> source_ptr m1 = 1 \<and> cur m1 = 1
         \<and> step ''+[-]'' m1 = Inr m2 \<and> source_ptr m2 = 2 \<and> cur m2 = 1
         \<and> step ''+[-]'' m2 = Inr m3 \<and> source_ptr m3 = 3 \<and> cur m3 = 0
         \<and> step ''+[-]'' m3 = Inr m4 \<and> source_ptr m4 = 4 \<and> cur m4 = 0
         \<and> ExecuteSource 3 ''+[-]'' m0 = None
         \<and> ExecuteSource n ''+[-]'' m0 = Some (Inr m)
         \<and> m = m4\<lparr>stdout := stdout m4 @ bytes ''\<newline>''\<rparr>
         \<and> cell m = 0 \<and> cur m = 0 \<and> source_ptr m = 4"
proof -
  have "\<exists>m1 m2 m3 m4 m.
           step ''+[-]'' (at_loop_start ''+[-]'' m0) = Inr m1 \<and> source_ptr m1 = 1 \<and> cur m1 = 1
         \<and> step ''+[-]'' m1 = Inr m2 \<and> source_ptr m2 = 2 \<and> cur m2 = 1
         \<and> step ''+[-]'' m2 = Inr m3 \<and> source_ptr m3 = 3 \<and> cur m3 = 0
         \<and> step ''+[-]'' m3 = Inr m4 \<and> source_ptr m4 = 4 \<and> cur m4 = 0
         \<and> ExecuteSource 3 ''+[-]'' m0 = None
         \<and> ExecuteSource 4 ''+[-]'' m0 = Some (Inr m)
         \<and> m = m4\<lparr>stdout := stdout m4 @ bytes ''\<newline>''\<rparr>
         \<and> cell m = 0 \<and> cur m = 0 \<and> source_ptr m = 4"
    using assms(1,2) by (simp add: conc cur_def)
  then show ?thesis using ExecuteSource_mono[OF _ assms(3)] by blast
qed

theorem plus_loop_minus_halts_witness:
  "cell (fresh []) = 0 \<and> tape (fresh []) 0 = 0 \<and> (4::nat) \<le> 4
   \<and> ExecuteSource 3 ''+[-]'' (fresh []) = None
   \<and> map_option (map_sum id (\<lambda>m. (cell m, cur m, source_ptr m)))
        (ExecuteSource 4 ''+[-]'' (fresh [])) = Some (Inr (0, 0, 4))
   \<and> map_sum id (\<lambda>m. (cur m, source_ptr m)) (step ''+[-]'' (at_loop_start ''+[-]'' (fresh [])))
        = Inr (1, 1)"
proof -
  have pre: "cell (fresh []) = 0" "tape (fresh []) 0 = 0" "(4::nat) \<le> 4"
    by (simp_all add: fresh_def)
  show ?thesis using plus_loop_minus_halts[OF pre] pre by auto
qed

text \<open>
  C8. On such a tape \<open>+++.\<close> halts and appends to \<open>stdout\<close> exactly two bytes: the
  value 3 and the newline that \<open>ExecuteSource\<close> prints after its loop.
\<close>

theorem three_plus_dot_output:
  assumes "cell m0 = 0" and "tape m0 0 = 0" and "4 \<le> n"
  shows "\<exists>m. ExecuteSource n ''+++.'' m0 = Some (Inr m) \<and> stdout m = stdout m0 @ [3, 10]"
proof -
  have "\<exists>m. ExecuteSource 4 ''+++.'' m0 = Some (Inr m) \<and> stdout m = stdout m0 @ [3, 10]"
    using assms(1,2) by (simp add: conc)
  then show ?thesis using ExecuteSource_mono[OF _ assms(3)] by blast
qed

theorem three_plus_dot_output_witness:
  "cell (fresh []) = 0 \<and> tape (fresh []) 0 = 0 \<and> (4::nat) \<le> 4
   \<and> (\<exists>m. ExecuteSource 4 ''+++.'' (fresh []) = Some (Inr m) \<and> stdout m = [3, 10])"
  using three_plus_dot_output[of "fresh []" 4] by (simp add: fresh_def)

section \<open>The statements of the emitted program\<close>

text \<open>The text that \<open>bf_to_c\<close> writes is the head, the lines of \<open>emitted\<close> and the tail.\<close>

lemma bf_to_c_emitted:
  "bf_to_c inp = prologue @ concat (map render (emitted inp)) @ epilogue"
proof -
  have "concat (map (\<lambda>c. case translate c of None \<Rightarrow> [] | Some st \<Rightarrow> render st) cs)
      = concat (map render (emitted cs))" for cs
    by (induction cs) (auto simp: emitted_def List.map_filter_def split: option.splits)
  then show ?thesis by (simp add: bf_to_c_def)
qed

lemma emitted_append: "emitted (xs @ ys) = emitted xs @ emitted ys"
  by (simp add: emitted_def List.map_filter_def)

lemma emitted_single:
  "emitted [c] = (case translate c of None \<Rightarrow> [] | Some st \<Rightarrow> [st])"
  by (simp add: emitted_def List.map_filter_def split: option.splits)

lemma emitted_split:
  "p < length source \<Longrightarrow>
     emitted source = emitted (take p source) @ emitted [source ! p] @ emitted (drop (Suc p) source)"
  by (metis emitted_append id_take_nth_drop append_Cons append_Nil)

lemma emit_pos_0 [simp]: "emit_pos source 0 = 0"
  by (simp add: emit_pos_def emitted_def List.map_filter_def)

lemma emit_pos_Suc:
  "p < length source \<Longrightarrow>
     emit_pos source (Suc p) = (if translate (source ! p) = None then emit_pos source p
                                else Suc (emit_pos source p))"
  by (auto simp: emit_pos_def take_Suc_conv_app_nth emitted_append emitted_single)

lemma emit_pos_length: "emit_pos source (length source) = length (emitted source)"
  by (simp add: emit_pos_def)

lemma emit_pos_mono: "p \<le> q \<Longrightarrow> emit_pos source p \<le> emit_pos source q"
proof -
  assume "p \<le> q"
  then have "take q source = take p source @ take (q - p) (drop p source)"
    by (metis le_add_diff_inverse take_add)
  then show ?thesis by (simp add: emit_pos_def emitted_append)
qed

lemma emitted_nth:
  assumes "p < length source" and "translate (source ! p) = Some st"
  shows "emit_pos source p < length (emitted source)"
    and "emitted source ! emit_pos source p = st"
proof -
  have e: "emitted source = emitted (take p source) @ st # emitted (drop (Suc p) source)"
    using emitted_split[OF assms(1)] assms(2) by (simp add: emitted_single)
  show "emit_pos source p < length (emitted source)"
    by (subst e) (simp add: emit_pos_def)
  show "emitted source ! emit_pos source p = st"
    by (subst e) (simp add: emit_pos_def)
qed

lemma emit_pos_onto:
  "j < length (emitted source) \<Longrightarrow>
     \<exists>r<length source. translate (source ! r) \<noteq> None \<and> emit_pos source r = j"
proof (induction source rule: rev_induct)
  case Nil
  then show ?case by (simp add: emitted_def List.map_filter_def)
next
  case (snoc c cs)
  show ?case
  proof (cases "j < length (emitted cs)")
    case True
    then obtain r where "r < length cs" "translate (cs ! r) \<noteq> None" "emit_pos cs r = j"
      using snoc.IH by blast
    then show ?thesis
      by (intro exI[of _ r]) (simp add: emit_pos_def nth_append)
  next
    case False
    then have "j = length (emitted cs)" and "translate c \<noteq> None"
      using snoc.prems by (auto simp: emitted_append emitted_single split: option.splits)
    then show ?thesis
      by (intro exI[of _ "length cs"]) (simp add: emit_pos_def)
  qed
qed

lemma count_emitted:
  "int (length (filter (\<lambda>s. s = WhileOpen) (emitted cs)))
     - int (length (filter (\<lambda>s. s = WhileClose) (emitted cs)))
   = int (length (filter (\<lambda>c. c = CHR ''['') cs)) - int (length (filter (\<lambda>c. c = CHR '']'') cs))"
proof (induction cs)
  case Nil
  then show ?case by (simp add: emitted_def List.map_filter_def)
next
  case (Cons c cs)
  have "emitted (c # cs) = emitted [c] @ emitted cs"
    using emitted_append[of "[c]" cs] by simp
  then show ?case using Cons
    by (simp add: emitted_single translate_def)
qed

lemma level_emit_pos:
  "p \<le> length source \<Longrightarrow> level (emitted source) (emit_pos source p) = depth source p"
proof -
  assume "p \<le> length source"
  have "emitted source = emitted (take p source) @ emitted (drop p source)"
    by (metis emitted_append append_take_drop_id)
  then have "take (emit_pos source p) (emitted source) = emitted (take p source)"
    by (simp add: emit_pos_def)
  then show ?thesis
    using count_emitted[of "take p source"]
    by (simp add: level_def depth_def nest_level_def)
qed

section \<open>The blocks of the emitted program and the Jump Map\<close>

lemma find_upt_first:
  "a \<le> q \<Longrightarrow> q < b \<Longrightarrow> Q q \<Longrightarrow> (\<And>i. a \<le> i \<Longrightarrow> i < q \<Longrightarrow> \<not> Q i)
     \<Longrightarrow> find Q [a..<b] = Some q"
proof (induction "q - a" arbitrary: a)
  case 0
  then show ?case by (simp add: upt_rec[of a b])
next
  case (Suc d)
  then have "find Q [Suc a..<b] = Some q" by (intro Suc.hyps(1)) auto
  moreover have "\<not> Q a" "a < b" using Suc.prems Suc.hyps(2) by auto
  ultimately show ?case by (simp add: upt_rec[of a b])
qed

lemma find_rev_upt_last:
  "p < q \<Longrightarrow> Q p \<Longrightarrow> (\<And>i. p < i \<Longrightarrow> i < q \<Longrightarrow> \<not> Q i)
     \<Longrightarrow> find Q (rev [0..<q]) = Some p"
proof (induction q)
  case 0
  then show ?case by simp
next
  case (Suc q)
  show ?case
  proof (cases "p = q")
    case True
    then show ?thesis using Suc.prems by simp
  next
    case False
    then have "p < q" using Suc.prems by simp
    moreover have "\<not> Q q" using Suc.prems(3)[of q] \<open>p < q\<close> by simp
    ultimately show ?thesis using Suc by simp
  qed
qed

text \<open>Between the statements of a pair lie only statements of bytes between the pair.\<close>

lemma between_pair:
  assumes "paired source lp p q" and "emit_pos source p < j" and "j < emit_pos source q"
  obtains r where "p < r" "r < q" "emit_pos source r = j" "emit_pos source (Suc r) = Suc j"
proof -
  have q: "q < length source" using assms(1) by (simp add: paired_def)
  have "j < length (emitted source)"
    using assms(3) emit_pos_mono[of q "length source" source] q
    by (simp add: emit_pos_length)
  then obtain r where r: "r < length source" "translate (source ! r) \<noteq> None"
    "emit_pos source r = j"
    using emit_pos_onto by blast
  have "p < r"
    using emit_pos_mono[of r p source] assms(2) r(3) by (cases "p < r") auto
  moreover have "r < q"
    using emit_pos_mono[of q r source] assms(3) r(3) by (cases "r < q") auto
  moreover have "emit_pos source (Suc r) = Suc j"
    using r by (simp add: emit_pos_Suc)
  ultimately show ?thesis using that r(3) by blast
qed

lemma paired_emit_pos:
  assumes "paired source lp p q"
  shows "emit_pos source (Suc p) = Suc (emit_pos source p)"
    and "emit_pos source (Suc q) = Suc (emit_pos source q)"
    and "Suc (emit_pos source p) \<le> emit_pos source q"
    and "emit_pos source q < length (emitted source)"
proof -
  have pq: "p < q" "q < length source" "source ! p = CHR ''[''" "source ! q = CHR '']''"
    using assms by (auto simp: paired_def)
  show 1: "emit_pos source (Suc p) = Suc (emit_pos source p)"
    using pq by (simp add: emit_pos_Suc translate_def)
  show "emit_pos source (Suc q) = Suc (emit_pos source q)"
    using pq by (simp add: emit_pos_Suc translate_def)
  show "Suc (emit_pos source p) \<le> emit_pos source q"
    using emit_pos_mono[of "Suc p" q source] pq(1) 1 by simp
  show "emit_pos source q < length (emitted source)"
    using emitted_nth(1)[of q source WhileClose] pq by (simp add: translate_def)
qed

lemma block_end_paired:
  assumes "paired source lp p q"
  shows "block_end (emitted source) (emit_pos source p) = Some (emit_pos source q)"
  unfolding block_end_def
proof (rule find_upt_first)
  have pq: "p < q" "q < length source" "depth source (Suc q) = depth source p"
    using assms by (auto simp: paired_def)
  show "Suc (emit_pos source p) \<le> emit_pos source q"
    and "emit_pos source q < length (emitted source)"
    using paired_emit_pos[OF assms] by simp_all
  show "level (emitted source) (Suc (emit_pos source q)) = level (emitted source) (emit_pos source p)"
    using level_emit_pos[of "Suc q" source] level_emit_pos[of p source] pq
    by (simp add: paired_emit_pos(2)[OF assms, symmetric])
  show "level (emitted source) (Suc j) \<noteq> level (emitted source) (emit_pos source p)"
    if j1: "Suc (emit_pos source p) \<le> j" and j2: "j < emit_pos source q" for j
  proof -
    have lt: "emit_pos source p < j" using j1 by simp
    obtain r where r: "p < r" "r < q" "emit_pos source (Suc r) = Suc j"
      using between_pair[OF assms lt j2] by blast
    have "depth source p < depth source (Suc r)"
      using assms r by (auto simp: paired_def)
    then show ?thesis
      using level_emit_pos[of "Suc r" source] level_emit_pos[of p source] r pq by simp
  qed
qed

lemma block_start_paired:
  assumes "paired source lp p q"
  shows "block_start (emitted source) (emit_pos source q) = Some (emit_pos source p)"
  unfolding block_start_def
proof (rule find_rev_upt_last)
  have pq: "p < q" "q < length source" "depth source (Suc q) = depth source p"
    using assms by (auto simp: paired_def)
  show "emit_pos source p < emit_pos source q"
    using paired_emit_pos(3)[OF assms] by simp
  show "level (emitted source) (emit_pos source p) = level (emitted source) (Suc (emit_pos source q))"
    using level_emit_pos[of "Suc q" source] level_emit_pos[of p source] pq
    by (simp add: paired_emit_pos(2)[OF assms, symmetric])
  show "level (emitted source) j \<noteq> level (emitted source) (Suc (emit_pos source q))"
    if j1: "emit_pos source p < j" and j2: "j < emit_pos source q" for j
  proof -
    obtain r where r: "p < r" "r < q" "emit_pos source r = j"
      using between_pair[OF assms j1 j2] by blast
    have "depth source p < depth source r"
      using assms r by (auto simp: paired_def)
    then show ?thesis
      using level_emit_pos[of r source] level_emit_pos[of "Suc q" source] r pq
      by (simp add: paired_emit_pos(2)[OF assms, symmetric])
  qed
qed

lemma balanced_jumps_match:
  assumes "balanced source"
  shows "jumps_match source (fst (InitLoops source lp0))"
proof -
  obtain lp where s: "scan source lp0 = ([], lp, [])"
    and opn: "\<And>p. p < length source \<Longrightarrow> source ! p = CHR ''['' \<Longrightarrow> paired source lp p (lp p)"
    and cls: "\<And>p. p < length source \<Longrightarrow> source ! p = CHR '']'' \<Longrightarrow> paired source lp (lp p) p"
    using balanced_scan[OF assms] by blast
  have "fst (InitLoops source lp0) = lp" by (simp add: InitLoops_def s)
  moreover have "lp p < length source \<and> source ! lp p = CHR '']''
      \<and> block_end (emitted source) (emit_pos source p) = Some (emit_pos source (lp p))"
    if "p < length source" "source ! p = CHR ''[''" for p
    using opn[OF that] block_end_paired[OF opn[OF that]] by (simp add: paired_def)
  moreover have "lp p < length source \<and> source ! lp p = CHR ''[''
      \<and> block_start (emitted source) (emit_pos source p) = Some (emit_pos source (lp p))"
    if "p < length source" "source ! p = CHR '']''" for p
    using cls[OF that] block_start_paired[OF cls[OF that]] by (simp add: paired_def)
  ultimately show ?thesis by (simp add: jumps_match_def)
qed

section \<open>The emitted program against the Tape Machine\<close>

lemma ucast_short_byte_of_int:
  "(ucast (word_of_int k :: short) :: byte) = word_of_int k"
  by (rule ucast_down_wi) (simp add: is_down)

lemma ucast_short_byte_succ: "(ucast (w + 1 :: short) :: byte) = ucast w + 1"
proof -
  have "(ucast (word_of_int (uint w + 1) :: short) :: byte) = ucast (word_of_int (uint w) :: short) + 1"
    unfolding ucast_short_byte_of_int by simp
  then show ?thesis by simp
qed

lemma ucast_short_byte_pred: "(ucast (w - 1 :: short) :: byte) = ucast w - 1"
proof -
  have "(ucast (word_of_int (uint w - 1) :: short) :: byte) = ucast (word_of_int (uint w) :: short) - 1"
    unfolding ucast_short_byte_of_int by simp
  then show ?thesis by simp
qed

lemma ucast_byte_short_byte: "(ucast (ucast (b :: byte) :: short) :: byte) = b"
  by (simp add: ucast_up_ucast_id is_up)

lemma sint_cell_inside: "0 \<le> sint (w :: short) \<Longrightarrow> sint w < int TAPESIZE"
  using sint_short_range[of w] by (simp add: TAPESIZE_def)

text \<open>A byte for which nothing is emitted: the machine moves on, the emitted program stays.\<close>

lemma sim_skip:
  assumes sm: "sim source m s"
    and pc: "source_ptr m < length source"
    and ag: "agrees source m"
    and none: "translate (source ! source_ptr m) = None"
  shows "\<exists>m'. step source m = Inr m' \<and> sim source m' s \<and> loops m' = loops m"
proof -
  let ?c = "source ! source_ptr m"
  have "?c \<noteq> CHR ''#''" "?c \<noteq> CHR ''@''"
    using ag by (simp_all add: agrees_def Let_def)
  moreover have "?c \<noteq> CHR ''+''" "?c \<noteq> CHR ''-''" "?c \<noteq> CHR ''<''" "?c \<noteq> CHR ''>''"
    "?c \<noteq> CHR '',''" "?c \<noteq> CHR ''.''" "?c \<noteq> CHR ''[''" "?c \<noteq> CHR '']''"
    using none by (auto simp: translate_def split: if_splits)
  ultimately have "exec_instr source m = Inr m"
    by (simp add: exec_instr_def)
  then show ?thesis
    using sm pc none by (simp add: step_def sim_def emit_pos_Suc)
qed

text \<open>A byte with a statement: both take one step and stay related.\<close>

lemma sim_step:
  assumes jm: "jumps_match source (loops m)"
    and sm: "sim source m s"
    and pc: "source_ptr m < length source"
    and ag: "agrees source m"
    and some: "translate (source ! source_ptr m) \<noteq> None"
  shows "\<exists>m' s'. step source m = Inr m' \<and> c_step (emitted source) s = Inr s'
           \<and> sim source m' s' \<and> loops m' = loops m"
proof -
  let ?c = "source ! source_ptr m"
  have pcs: "c_pc s = emit_pos source (source_ptr m)"
    using sm by (simp add: sim_def)
  have nth: "emitted source ! emit_pos source (source_ptr m) = the (translate ?c)"
    using emitted_nth(2)[OF pc] some by auto
  have nx: "emit_pos source (Suc (source_ptr m)) = Suc (emit_pos source (source_ptr m))"
    using pc some by (simp add: emit_pos_Suc)
  have ptr: "c_ptr s = sint (cell m)" "0 \<le> sint (cell m)" "sint (cell m) < int TAPESIZE"
    "\<not> sint (cell m) < 0" "sint (cell m) \<le> int TAPESIZE"
    using sm ag sint_cell_inside[of "cell m"] by (auto simp: sim_def agrees_def Let_def)
  have cells: "c_cells s i = ucast (tape m i)" for i
    using sm by (simp add: sim_def)
  note defs = step_def exec_instr_def c_step_def pcs nth nx translate_def Let_def sim_def ptr cells
  consider (plus) "?c = CHR ''+''" | (minus) "?c = CHR ''-''" | (left) "?c = CHR ''<''"
    | (right) "?c = CHR ''>''" | (comma) "?c = CHR '',''" | (dot) "?c = CHR ''.''"
    | (opn) "?c = CHR ''[''" | (cls) "?c = CHR '']''"
    using some by (auto simp: translate_def split: if_splits)
  then show ?thesis
  proof cases
    case plus
    then show ?thesis using sm by (simp add: defs ucast_short_byte_succ)
  next
    case minus
    then have "0 < sint (tape m (nat (sint (cell m))))"
      using ag by (simp add: agrees_def cur_def)
    then show ?thesis using minus sm by (simp add: defs ucast_short_byte_pred)
  next
    case left
    then have "0 < sint (cell m)" using ag by (simp add: agrees_def)
    then show ?thesis using left sm by (simp add: defs sint_short_pred)
  next
    case right
    then have "sint (cell m) < 32767" using ag by (simp add: agrees_def)
    then show ?thesis using right sm by (simp add: defs sint_short_succ)
  next
    case comma
    then obtain b rest where inp: "stdin m = b # rest"
      using ag by (cases "stdin m") (auto simp: agrees_def)
    show ?thesis using comma sm inp by (simp add: defs ucast_byte_short_byte)
  next
    case dot
    then show ?thesis using sm by (simp add: defs)
  next
    case opn
    then have z: "(tape m (nat (sint (cell m))) = 0) = ((ucast (tape m (nat (sint (cell m)))) :: byte) = 0)"
      using ag by (simp add: agrees_def cur_def)
    let ?q = "loops m (source_ptr m)"
    have q: "?q < length source" "source ! ?q = CHR '']''"
      and be: "block_end (emitted source) (emit_pos source (source_ptr m)) = Some (emit_pos source ?q)"
      using jm pc opn by (simp_all add: jumps_match_def)
    have nq: "emit_pos source (Suc ?q) = Suc (emit_pos source ?q)"
      using q by (simp add: emit_pos_Suc translate_def)
    show ?thesis using opn sm z be nq by (simp add: defs)
  next
    case cls
    then have z: "(tape m (nat (sint (cell m))) = 0) = ((ucast (tape m (nat (sint (cell m)))) :: byte) = 0)"
      using ag by (simp add: agrees_def cur_def)
    let ?q = "loops m (source_ptr m)"
    have q: "?q < length source" "source ! ?q = CHR ''[''"
      and bs: "block_start (emitted source) (emit_pos source (source_ptr m)) = Some (emit_pos source ?q)"
      using jm pc cls by (simp_all add: jumps_match_def)
    have nq: "emit_pos source (Suc ?q) = Suc (emit_pos source ?q)"
      using q by (simp add: emit_pos_Suc translate_def)
    show ?thesis using cls sm z bs nq by (simp add: defs)
  qed
qed

lemma c_run_mono: "c_run n P s = Some r \<Longrightarrow> n \<le> k \<Longrightarrow> c_run k P s = Some r"
proof (induction n arbitrary: k s)
  case 0
  then show ?case by (cases k) (auto split: if_splits)
next
  case (Suc n)
  then obtain k' where k: "k = Suc k'" "n \<le> k'" by (cases k) auto
  from Suc.prems(1) show ?case unfolding k
    by (auto split: if_splits sum.splits intro: Suc.IH[OF _ k(2)])
qed

lemma emit_pos_past: "length source \<le> p \<Longrightarrow> emit_pos source p = length (emitted source)"
  by (simp add: emit_pos_def)

lemma emit_pos_inside:
  "p < length source \<Longrightarrow> translate (source ! p) \<noteq> None
     \<Longrightarrow> emit_pos source p < length (emitted source)"
  using emitted_nth(1)[of p source] by auto

text \<open>A balanced Program Buffer gives a text that compiles.\<close>

lemma nesting_c_nesting: "nesting cs d \<Longrightarrow> c_nesting (emitted cs) d"
proof (induction cs arbitrary: d)
  case Nil
  then show ?case by (simp add: emitted_def List.map_filter_def)
next
  case (Cons c cs)
  have e: "emitted (c # cs) = emitted [c] @ emitted cs"
    using emitted_append[of "[c]" cs] by simp
  show ?case using Cons.prems Cons.IH
    by (auto simp: e emitted_single translate_def split: if_splits)
qed

lemma balanced_compiles: "balanced source \<Longrightarrow> compiles (emitted source)"
  by (simp add: balanced_def compiles_def nesting_c_nesting)

text \<open>
  \<open>run_upto\<close> and \<open>c_run_upto\<close> against \<open>run\<close> and \<open>c_run\<close>: a state reached past the
  end is the result of the run, and a state reached inside the buffer says that the
  run has not ended.
\<close>

lemma run_upto_run:
  "run_upto n source m = Inr m' \<Longrightarrow>
     run n source m = (if source_ptr m' < length source then None else Some (Inr m'))"
proof (induction n arbitrary: m)
  case 0
  then show ?case by simp
next
  case (Suc n)
  then show ?case by (auto split: if_splits sum.splits)
qed

lemma c_run_upto_run:
  "c_run_upto n P s = Inr s' \<Longrightarrow>
     c_run n P s = (if c_pc s' < length P then None else Some (Inr s'))"
proof (induction n arbitrary: s)
  case 0
  then show ?case by simp
next
  case (Suc n)
  then show ?case by (auto split: if_splits sum.splits)
qed

text \<open>
  Any number of iterations: while the two agree in front of each instruction, neither
  run meets a fault, and after \<open>n\<close> iterations of the machine the emitted program has
  executed the \<open>k\<close> statements emitted for them and is in a related state.
\<close>

lemma sim_upto:
  assumes "jumps_match source (loops m)" and "sim source m s" and "agree_run n source m"
  shows "\<exists>m' k s'. k \<le> n \<and> run_upto n source m = Inr m'
           \<and> c_run_upto k (emitted source) s = Inr s' \<and> sim source m' s'"
  using assms
proof (induction n arbitrary: m s)
  case 0
  then show ?case by (intro exI[of _ m] exI[of _ 0] exI[of _ s]) simp
next
  case (Suc n)
  have pcs: "c_pc s = emit_pos source (source_ptr m)" using Suc.prems(2) by (simp add: sim_def)
  show ?case
  proof (cases "source_ptr m < length source")
    case False
    then show ?thesis using Suc.prems(2)
      by (intro exI[of _ m] exI[of _ 0] exI[of _ s]) simp
  next
    case inside: True
    then have ag: "agrees source m" using Suc.prems(3) by simp
    show ?thesis
    proof (cases "translate (source ! source_ptr m) = None")
      case True
      obtain m1 where st: "step source m = Inr m1" "sim source m1 s" "loops m1 = loops m"
        using sim_skip[OF Suc.prems(2) inside ag True] by blast
      have "agree_run n source m1" using Suc.prems(3) inside st(1) by simp
      then obtain m' k s' where r: "k \<le> n" "run_upto n source m1 = Inr m'"
        "c_run_upto k (emitted source) s = Inr s'" "sim source m' s'"
        using Suc.IH[of m1 s] Suc.prems(1) st by auto
      show ?thesis
        using r inside st(1) by (intro exI[of _ m'] exI[of _ k] exI[of _ s']) simp
    next
      case False
      obtain m1 s1 where st: "step source m = Inr m1" "c_step (emitted source) s = Inr s1"
        "sim source m1 s1" "loops m1 = loops m"
        using sim_step[OF Suc.prems(1,2) inside ag False] by blast
      have "agree_run n source m1" using Suc.prems(3) inside st(1) by simp
      then obtain m' k s' where r: "k \<le> n" "run_upto n source m1 = Inr m'"
        "c_run_upto k (emitted source) s1 = Inr s'" "sim source m' s'"
        using Suc.IH[of m1 s1] Suc.prems(1) st by auto
      show ?thesis
        using r inside st(1,2) emit_pos_inside[OF inside False]
        by (intro exI[of _ m'] exI[of _ "Suc k"] exI[of _ s']) (simp add: pcs)
    qed
  qed
qed

lemma agree_run_numeral:
  "agree_run (numeral k) source m =
     (if source_ptr m < length source then
        agrees source m
        \<and> (case step source m of Inl e \<Rightarrow> True | Inr m1 \<Rightarrow> agree_run (pred_numeral k) source m1)
      else True)"
  by (simp add: numeral_eq_Suc)

lemma c_run_numeral:
  "c_run (numeral k) P s =
     (if c_pc s < length P then
        (case c_step P s of
           Inl e \<Rightarrow> Some (Inl e)
         | Inr s1 \<Rightarrow> c_run (pred_numeral k) P s1)
      else Some (Inr s))"
  by (simp add: numeral_eq_Suc)

lemma run_upto_numeral:
  "run_upto (numeral k) source m =
     (if source_ptr m < length source then
        (case step source m of
           Inl e \<Rightarrow> Inl e
         | Inr m1 \<Rightarrow> run_upto (pred_numeral k) source m1)
      else Inr m)"
  by (simp add: numeral_eq_Suc)

lemma c_run_upto_numeral:
  "c_run_upto (numeral k) P s =
     (if c_pc s < length P then
        (case c_step P s of
           Inl e \<Rightarrow> Inl e
         | Inr s1 \<Rightarrow> c_run_upto (pred_numeral k) P s1)
      else Inr s)"
  by (simp add: numeral_eq_Suc)

lemmas c_conc = c_main_def compiles_def c_start_def c_run_numeral c_run_upto_numeral c_step_def
  emitted_def List.map_filter_def translate_def block_end_def block_start_def level_def
  nest_level_def TAPESIZE_def

text \<open>A text with a brace that is never closed does not compile.\<close>

lemma unbalanced_text_rejected: "c_main n (emitted ''+['') inp = Some (Inl Malformed)"
  by (simp add: c_main_def compiles_def emitted_def List.map_filter_def translate_def)

text \<open>
  C1, as the spec states it, fails. \<open>-.\<close> and \<open>,.\<close> are balanced. On a fresh tape the
  machine leaves the cell at 0 on \<open>-\<close> and writes the bytes 0 and 10, while the emitted
  program wraps the byte to 255 and writes 255 alone; with no input the machine leaves
  the cell at 0 on \<open>,\<close>, while the emitted program stores \<open>EOF\<close> as 255.
\<close>

theorem emitted_output_differs_counterexample:
  "balanced ''-.''
   \<and> map_option (map_sum id stdout) (ExecuteSource 2 ''-.'' (fresh [])) = Some (Inr [0, 10])
   \<and> map_option (map_sum id c_stdout) (c_main 2 (emitted ''-.'') []) = Some (Inr [255])
   \<and> balanced '',.''
   \<and> map_option (map_sum id stdout) (ExecuteSource 2 '',.'' (fresh [])) = Some (Inr [0, 10])
   \<and> map_option (map_sum id c_stdout) (c_main 2 (emitted '',.'') []) = Some (Inr [255])"
  by (simp add: balanced_def conc c_conc)

text \<open>
  C1, amended. For a balanced Program Buffer, any input, any previous content of
  \<open>loops\<close> and any \<open>n\<close>: the emitted text compiles, and when \<open>agrees\<close> holds in front of
  each of the first \<open>n\<close> instructions that \<open>ExecuteSource\<close> executes on a fresh tape,
  the two run step for step. Neither meets a fault; after the machine's \<open>n\<close>
  iterations (fewer when the run has ended) the emitted program has executed \<open>k \<le> n\<close>
  statements and the two are related by \<open>sim\<close>: the emitted program stands at the
  statement for the machine's cursor, with the same pointer, the same input left, the
  same output so far, and in every byte of its block the low byte of the machine's
  cell. If the machine has not ended by then, \<open>ExecuteSource n\<close> gives no result. If it
  has, so has the emitted program, and the output of \<open>ExecuteSource\<close> is the emitted
  program's output followed by the one newline that \<open>ExecuteSource\<close> prints at the end.
\<close>

theorem emitted_program_refines:
  assumes "balanced source"
    and "agree_run n source (at_loop_start source (fresh inp\<lparr>loops := lp0\<rparr>))"
  shows "compiles (emitted source)
       \<and> (\<exists>m k s. k \<le> n
            \<and> run_upto n source (at_loop_start source (fresh inp\<lparr>loops := lp0\<rparr>)) = Inr m
            \<and> c_run_upto k (emitted source) (c_start inp) = Inr s
            \<and> sim source m s
            \<and> (if source_ptr m < length source
               then ExecuteSource n source (fresh inp\<lparr>loops := lp0\<rparr>) = None
               else ExecuteSource n source (fresh inp\<lparr>loops := lp0\<rparr>)
                      = Some (Inr (m\<lparr>stdout := c_stdout s @ bytes ''\<newline>''\<rparr>))
                  \<and> c_main n (emitted source) inp = Some (Inr s)))"
proof -
  let ?m = "at_loop_start source (fresh inp\<lparr>loops := lp0\<rparr>)"
  have cp: "compiles (emitted source)"
    using assms(1) by (rule balanced_compiles)
  have lp: "loops ?m = fst (InitLoops source lp0)"
    by (simp add: at_loop_start_def fresh_def split: prod.splits)
  have jm: "jumps_match source (loops ?m)"
    unfolding lp using assms(1) by (rule balanced_jumps_match)
  have sm: "sim source ?m (c_start inp)"
    by (simp add: sim_def c_start_def at_loop_start_def fresh_def split: prod.splits)
  obtain m k s where r: "k \<le> n" "run_upto n source ?m = Inr m"
    "c_run_upto k (emitted source) (c_start inp) = Inr s" "sim source m s"
    using sim_upto[OF jm sm assms(2)] by blast
  have run: "run n source ?m = (if source_ptr m < length source then None else Some (Inr m))"
    using run_upto_run[OF r(2)] .
  have "ExecuteSource n source (fresh inp\<lparr>loops := lp0\<rparr>) = None"
    if "source_ptr m < length source"
    using run that by (simp add: ExecuteSource_def)
  moreover have "ExecuteSource n source (fresh inp\<lparr>loops := lp0\<rparr>)
        = Some (Inr (m\<lparr>stdout := c_stdout s @ bytes ''\<newline>''\<rparr>))
      \<and> c_main n (emitted source) inp = Some (Inr s)"
    if past: "\<not> source_ptr m < length source"
  proof -
    have "c_pc s = length (emitted source)"
      using r(4) past by (simp add: sim_def emit_pos_past)
    then have "c_run k (emitted source) (c_start inp) = Some (Inr s)"
      using c_run_upto_run[OF r(3)] by simp
    then have "c_run n (emitted source) (c_start inp) = Some (Inr s)"
      using r(1) by (rule c_run_mono)
    then show ?thesis
      using run past cp r(4) by (simp add: ExecuteSource_def c_main_def sim_def)
  qed
  ultimately show ?thesis using cp r by (intro conjI exI[of _ m] exI[of _ k] exI[of _ s]) auto
qed

theorem emitted_program_refines_witness:
  "balanced ''+[.]''
   \<and> agree_run 7 ''+[.]'' (at_loop_start ''+[.]'' (fresh []\<lparr>loops := (\<lambda>_. 0)\<rparr>))
   \<and> ExecuteSource 7 ''+[.]'' (fresh []\<lparr>loops := (\<lambda>_. 0)\<rparr>) = None
   \<and> map_sum id stdout (run_upto 7 ''+[.]'' (at_loop_start ''+[.]'' (fresh []\<lparr>loops := (\<lambda>_. 0)\<rparr>)))
       = Inr [1, 1, 1]
   \<and> map_sum id c_stdout (c_run_upto 7 (emitted ''+[.]'') (c_start [])) = Inr [1, 1, 1]
   \<and> balanced '',[>+<.-] >.''
   \<and> agree_run 17 '',[>+<.-] >.'' (at_loop_start '',[>+<.-] >.'' (fresh [2]\<lparr>loops := (\<lambda>_. 0)\<rparr>))
   \<and> map_option (map_sum id stdout) (ExecuteSource 17 '',[>+<.-] >.'' (fresh [2]\<lparr>loops := (\<lambda>_. 0)\<rparr>))
       = Some (Inr [2, 1, 2, 10])
   \<and> map_option (map_sum id c_stdout) (c_main 17 (emitted '',[>+<.-] >.'') [2])
       = Some (Inr [2, 1, 2])"
proof -
  let ?M = "fresh []\<lparr>loops := (\<lambda>_. 0)\<rparr>"
  have pre: "balanced ''+[.]''" "agree_run 7 ''+[.]'' (at_loop_start ''+[.]'' ?M)"
    by (simp_all add: balanced_def conc agree_run_numeral agrees_def cur_def)
  have at: "map_sum id source_ptr (run_upto 7 ''+[.]'' (at_loop_start ''+[.]'' ?M)) = Inr 3"
    by (simp add: conc run_upto_numeral)
  obtain m where m: "run_upto 7 ''+[.]'' (at_loop_start ''+[.]'' ?M) = Inr m"
    "source_ptr m < length ''+[.]'' \<longrightarrow> ExecuteSource 7 ''+[.]'' ?M = None"
    using emitted_program_refines[OF pre] by metis
  have "source_ptr m = 3" using at m(1) by simp
  then have none: "ExecuteSource 7 ''+[.]'' ?M = None" using m(2) by simp
  have out: "map_sum id stdout (run_upto 7 ''+[.]'' (at_loop_start ''+[.]'' ?M)) = Inr [1, 1, 1]"
    "map_sum id c_stdout (c_run_upto 7 (emitted ''+[.]'') (c_start [])) = Inr [1, 1, 1]"
    by (simp_all add: conc run_upto_numeral c_conc)
  have halting: "balanced '',[>+<.-] >.''"
    "agree_run 17 '',[>+<.-] >.'' (at_loop_start '',[>+<.-] >.'' (fresh [2]\<lparr>loops := (\<lambda>_. 0)\<rparr>))"
    "map_option (map_sum id stdout) (ExecuteSource 17 '',[>+<.-] >.'' (fresh [2]\<lparr>loops := (\<lambda>_. 0)\<rparr>))
       = Some (Inr [2, 1, 2, 10])"
    "map_option (map_sum id c_stdout) (c_main 17 (emitted '',[>+<.-] >.'') [2])
       = Some (Inr [2, 1, 2])"
    by (simp_all add: balanced_def conc agree_run_numeral agrees_def cur_def c_conc)
  show ?thesis using pre none out halting by simp
qed

end
